theory Spec2Isabelle
  imports Complex_Main
begin

section \<open>Values: floating-point numbers with exact finite arithmetic\<close>

text \<open>
  The kernels of \<^verbatim>\<open>triton_kernel_dev.ipynb\<close> compute on floating-point tensors. The model
  keeps the special values of the format (not-a-number and the two infinities) and how they
  propagate, and takes the finite values to be real numbers with exact arithmetic: the
  rounding, underflow and overflow of finite results are left out, and zero has no sign.
  Statements on finite results are therefore kept to what rounding does not change: which
  results are errors, lengths, which positions are written, signs and bounds, the running
  maximum (a maximum is never rounded), and the special values.
\<close>

datatype fval = NaN | NegInf | Fin real | PosInf

type_synonym row = "fval list"

text \<open>Python's \<^verbatim>\<open>+\<close>, \<^verbatim>\<open>-\<close>, \<^verbatim>\<open>*\<close> and \<^verbatim>\<open>/\<close>, on one element of a tensor.\<close>

fun fneg :: "fval \<Rightarrow> fval" where
  "fneg NaN = NaN"
| "fneg NegInf = PosInf"
| "fneg (Fin a) = Fin (- a)"
| "fneg PosInf = NegInf"

fun fadd :: "fval \<Rightarrow> fval \<Rightarrow> fval" where
  "fadd NaN y = NaN"
| "fadd x NaN = NaN"
| "fadd (Fin a) (Fin b) = Fin (a + b)"
| "fadd PosInf NegInf = NaN"
| "fadd NegInf PosInf = NaN"
| "fadd PosInf y = PosInf"
| "fadd x PosInf = PosInf"
| "fadd NegInf y = NegInf"
| "fadd x NegInf = NegInf"

definition fsub :: "fval \<Rightarrow> fval \<Rightarrow> fval" where
  "fsub x y = fadd x (fneg y)"

fun fmul :: "fval \<Rightarrow> fval \<Rightarrow> fval" where
  "fmul NaN y = NaN"
| "fmul x NaN = NaN"
| "fmul (Fin a) (Fin b) = Fin (a * b)"
| "fmul (Fin a) PosInf = (if a = 0 then NaN else if 0 < a then PosInf else NegInf)"
| "fmul (Fin a) NegInf = (if a = 0 then NaN else if 0 < a then NegInf else PosInf)"
| "fmul PosInf (Fin b) = (if b = 0 then NaN else if 0 < b then PosInf else NegInf)"
| "fmul NegInf (Fin b) = (if b = 0 then NaN else if 0 < b then NegInf else PosInf)"
| "fmul PosInf PosInf = PosInf"
| "fmul PosInf NegInf = NegInf"
| "fmul NegInf PosInf = NegInf"
| "fmul NegInf NegInf = PosInf"

fun fdiv :: "fval \<Rightarrow> fval \<Rightarrow> fval" where
  "fdiv NaN y = NaN"
| "fdiv x NaN = NaN"
| "fdiv (Fin a) (Fin b) =
     (if b = 0 then (if a = 0 then NaN else if 0 < a then PosInf else NegInf)
      else Fin (a / b))"
| "fdiv (Fin a) PosInf = Fin 0"
| "fdiv (Fin a) NegInf = Fin 0"
| "fdiv PosInf (Fin b) = (if 0 \<le> b then PosInf else NegInf)"
| "fdiv NegInf (Fin b) = (if 0 \<le> b then NegInf else PosInf)"
| "fdiv PosInf y = NaN"
| "fdiv NegInf y = NaN"

text \<open>\<^verbatim>\<open>tl.exp\<close>, on one element.\<close>

fun tl_exp :: "fval \<Rightarrow> fval" where
  "tl_exp NaN = NaN"
| "tl_exp NegInf = Fin 0"
| "tl_exp (Fin a) = Fin (exp a)"
| "tl_exp PosInf = PosInf"

text \<open>
  \<^verbatim>\<open>tl.maximum\<close> on two scalars. With the default \<^verbatim>\<open>propagate_nan\<close> a not-a-number operand
  is dropped in favour of the other one.
\<close>

fun tl_maximum :: "fval \<Rightarrow> fval \<Rightarrow> fval" where
  "tl_maximum NaN y = y"
| "tl_maximum x NaN = x"
| "tl_maximum NegInf y = y"
| "tl_maximum x NegInf = x"
| "tl_maximum PosInf y = PosInf"
| "tl_maximum x PosInf = PosInf"
| "tl_maximum (Fin a) (Fin b) = Fin (max a b)"

text \<open>
  The reductions \<^verbatim>\<open>tl.max(_, axis=-1)\<close> and \<^verbatim>\<open>tl.sum(_, axis=-1)\<close> of a one-dimensional
  block. A block has at least one lane whenever a loop body runs.
\<close>

fun tl_max :: "fval list \<Rightarrow> fval" where
  "tl_max [] = NegInf"
| "tl_max (x # xs) = foldl tl_maximum x xs"

definition tl_sum :: "fval list \<Rightarrow> fval" where
  "tl_sum xs = foldl fadd (Fin 0) xs"

section \<open>Blocks: ranges, masked loads and masked stores\<close>

datatype error = ValueError

text \<open>
  \<^verbatim>\<open>range(start, stop, step)\<close> for a step that is not negative: the offsets
  \<open>start, start + step, ...\<close> below \<open>stop\<close>. A zero step is rejected.
\<close>

definition py_range :: "nat \<Rightarrow> nat \<Rightarrow> nat \<Rightarrow> error + nat list" where
  "py_range start stop step =
     (if step = 0 then Inl ValueError
      else Inr (map (\<lambda>k. start + k * step) [0..<(stop - start + step - 1) div step]))"

text \<open>
  \<^verbatim>\<open>tl.arange(start, stop)\<close> has two sides. Its bounds are compile-time constants, and the
  kernel compiler rejects them, before the kernel runs at all, unless \<open>start < stop\<close> and
  \<open>stop - start\<close> is a power of two: \<open>tl_arange_check\<close>, which the kernels below make once
  before any loop. Where the check passes, the value is the block of the lanes
  \<open>start, ..., stop - 1\<close>: \<open>tl_arange\<close>.
\<close>

definition is_power_of_two :: "nat \<Rightarrow> bool" where
  "is_power_of_two n = (n \<in> set (map (\<lambda>k. 2 ^ k) [0..<n]))"

definition tl_arange_check :: "nat \<Rightarrow> nat \<Rightarrow> error option" where
  "tl_arange_check start stop =
     (if stop \<le> start then Some ValueError
      else if \<not> is_power_of_two (stop - start) then Some ValueError
      else None)"

definition tl_arange :: "nat \<Rightarrow> nat \<Rightarrow> nat list" where
  "tl_arange start stop = [start..<stop]"

text \<open>
  \<^verbatim>\<open>tl.load(ptr + idx, mask=mask, other=other)\<close>: lane by lane, the element at the lane's
  index where the mask holds, and \<open>other\<close> where it does not. When no \<open>other\<close> is given the
  value of a masked-off lane is not determined by the program: the model takes it from
  \<open>undef\<close>, which every result is stated for.
\<close>

definition tl_load :: "(nat \<Rightarrow> fval) \<Rightarrow> row \<Rightarrow> nat list \<Rightarrow> bool list \<Rightarrow> fval option \<Rightarrow> fval list" where
  "tl_load undef mem idx msk other =
     map (\<lambda>(a, m). if m then mem ! a else (case other of Some v \<Rightarrow> v | None \<Rightarrow> undef a))
       (zip idx msk)"

text \<open>
  \<^verbatim>\<open>tl.store(ptr + idx, vals, mask=mask)\<close> with the consecutive indices
  \<open>offset, offset + 1, ...\<close> the kernels use: position \<open>j\<close> of the buffer takes the value
  of lane \<open>j - offset\<close> when that lane exists and its mask holds, and keeps its value
  otherwise.
\<close>

definition tl_store :: "row \<Rightarrow> nat \<Rightarrow> fval list \<Rightarrow> bool list \<Rightarrow> row" where
  "tl_store mem offset vals msk =
     map (\<lambda>j. if offset \<le> j \<and> j - offset < length vals \<and> j - offset < length msk
                  \<and> msk ! (j - offset)
               then vals ! (j - offset) else mem ! j)
       [0..<length mem]"

section \<open>The kernels\<close>

text \<open>
  One program instance (one \<^verbatim>\<open>pid\<close>) works on one row: \<open>in_row\<close> is the row of the input
  at \<^verbatim>\<open>in_ptr + pid * row_stride\<close>, \<open>out_row\<close> the row of the output buffer at
  \<^verbatim>\<open>output_ptr + pid * row_stride\<close> as it is before the launch (the notebook allocates it
  with \<^verbatim>\<open>torch.empty_like\<close>, so its contents are arbitrary), and \<open>n_cols\<close> the number of
  columns of the row, which the launch takes from the shape of the input: the kernels
  below take it to be the length of \<open>in_row\<close>. \<open>BLOCK_SIZE\<close> is a natural number, and a
  kernel starts with the compiler's check of \<^verbatim>\<open>tl.arange(0, BLOCK_SIZE)\<close>.
\<close>

subsection \<open>The loop bodies\<close>

text \<open>First loop of \<^verbatim>\<open>softmax_kernel_naive\<close>: the running maximum.\<close>

definition naive_max_body :: "(nat \<Rightarrow> fval) \<Rightarrow> row \<Rightarrow> nat \<Rightarrow> nat \<Rightarrow> fval \<Rightarrow> nat \<Rightarrow> fval" where
  "naive_max_body undef in_row n_cols BLOCK_SIZE in_max offset =
     (let col_range = tl_arange 0 BLOCK_SIZE;
          col_mask = map (\<lambda>c. c + offset < n_cols) col_range;
          in_data = tl_load undef in_row (map (\<lambda>c. c + offset) col_range) col_mask (Some NegInf)
      in tl_maximum in_max (tl_max in_data))"

text \<open>Second loop of \<^verbatim>\<open>softmax_kernel_naive\<close>: the sum of the exponentials.\<close>

definition naive_sum_body :: "(nat \<Rightarrow> fval) \<Rightarrow> row \<Rightarrow> nat \<Rightarrow> nat \<Rightarrow> fval \<Rightarrow> fval \<Rightarrow> nat \<Rightarrow> fval" where
  "naive_sum_body undef in_row n_cols BLOCK_SIZE in_max in_exp_sum offset =
     (let col_range = tl_arange 0 BLOCK_SIZE;
          col_mask = map (\<lambda>c. c + offset < n_cols) col_range;
          in_data = tl_load undef in_row (map (\<lambda>c. c + offset) col_range) col_mask (Some NegInf)
      in fadd in_exp_sum (tl_sum (map (\<lambda>x. tl_exp (fsub x in_max)) in_data)))"

text \<open>
  First loop of \<^verbatim>\<open>softmax_kernel_v1\<close>: the running maximum and the running sum, the sum
  rescaled to the new maximum.
\<close>

definition v1_accumulate_body ::
    "(nat \<Rightarrow> fval) \<Rightarrow> row \<Rightarrow> nat \<Rightarrow> nat \<Rightarrow> fval \<times> fval \<Rightarrow> nat \<Rightarrow> fval \<times> fval" where
  "v1_accumulate_body undef in_row n_cols BLOCK_SIZE st offset =
     (case st of (in_max, in_exp_sum) \<Rightarrow>
        let col_range = tl_arange 0 BLOCK_SIZE;
            col_mask = map (\<lambda>c. c + offset < n_cols) col_range;
            in_data = tl_load undef in_row (map (\<lambda>c. c + offset) col_range) col_mask (Some NegInf);
            in_max_new = tl_maximum in_max (tl_max in_data);
            in_exp_sum' = fadd (fmul in_exp_sum (tl_exp (fsub in_max in_max_new)))
                              (tl_sum (map (\<lambda>x. tl_exp (fsub x in_max_new)) in_data))
        in (in_max_new, in_exp_sum'))"

text \<open>
  The last loop, the same in both kernels: load without \<open>other\<close>, exponentiate, divide,
  store under the mask.
\<close>

definition emit_body ::
    "(nat \<Rightarrow> fval) \<Rightarrow> row \<Rightarrow> nat \<Rightarrow> nat \<Rightarrow> fval \<Rightarrow> fval \<Rightarrow> row \<Rightarrow> nat \<Rightarrow> row" where
  "emit_body undef in_row n_cols BLOCK_SIZE in_max in_exp_sum out_row offset =
     (let col_range = tl_arange 0 BLOCK_SIZE;
          col_mask = map (\<lambda>c. c + offset < n_cols) col_range;
          in_data = tl_load undef in_row (map (\<lambda>c. c + offset) col_range) col_mask None;
          in_exp = map (\<lambda>x. tl_exp (fsub x in_max)) in_data
      in tl_store out_row offset (map (\<lambda>e. fdiv e in_exp_sum) in_exp) col_mask)"

subsection \<open>The passes and the kernels\<close>

definition v1_accumulate :: "(nat \<Rightarrow> fval) \<Rightarrow> row \<Rightarrow> nat \<Rightarrow> nat list \<Rightarrow> fval \<times> fval" where
  "v1_accumulate undef in_row BLOCK_SIZE offsets =
     foldl (v1_accumulate_body undef in_row (length in_row) BLOCK_SIZE) (NegInf, Fin 0) offsets"

definition emit :: "(nat \<Rightarrow> fval) \<Rightarrow> row \<Rightarrow> nat \<Rightarrow> fval \<Rightarrow> fval \<Rightarrow> row \<Rightarrow> nat list \<Rightarrow> row" where
  "emit undef in_row BLOCK_SIZE in_max in_exp_sum out_row offsets =
     foldl (emit_body undef in_row (length in_row) BLOCK_SIZE in_max in_exp_sum) out_row offsets"

definition softmax_kernel_naive :: "(nat \<Rightarrow> fval) \<Rightarrow> row \<Rightarrow> row \<Rightarrow> nat \<Rightarrow> error + row" where
  "softmax_kernel_naive undef in_row out_row BLOCK_SIZE =
     (case tl_arange_check 0 BLOCK_SIZE of
        Some e \<Rightarrow> Inl e
      | None \<Rightarrow>
          let n_cols = length in_row in
          case py_range 0 n_cols BLOCK_SIZE of
            Inl e \<Rightarrow> Inl e
          | Inr offsets \<Rightarrow>
              let in_max = foldl (naive_max_body undef in_row n_cols BLOCK_SIZE) NegInf offsets;
                  in_exp_sum =
                    foldl (naive_sum_body undef in_row n_cols BLOCK_SIZE in_max) (Fin 0) offsets
              in Inr (emit undef in_row BLOCK_SIZE in_max in_exp_sum out_row offsets))"

definition softmax_kernel_v1 :: "(nat \<Rightarrow> fval) \<Rightarrow> row \<Rightarrow> row \<Rightarrow> nat \<Rightarrow> error + row" where
  "softmax_kernel_v1 undef in_row out_row BLOCK_SIZE =
     (case tl_arange_check 0 BLOCK_SIZE of
        Some e \<Rightarrow> Inl e
      | None \<Rightarrow>
          let n_cols = length in_row in
          case py_range 0 n_cols BLOCK_SIZE of
            Inl e \<Rightarrow> Inl e
          | Inr offsets \<Rightarrow>
              (case v1_accumulate undef in_row BLOCK_SIZE offsets of
                 (in_max, in_exp_sum) \<Rightarrow>
                   Inr (emit undef in_row BLOCK_SIZE in_max in_exp_sum out_row offsets)))"

subsection \<open>What the kernels hand to \<^verbatim>\<open>tl.exp\<close>\<close>

text \<open>
  The block \<open>in_data\<close> that an iteration of the accumulation loop loads at \<open>offset\<close>.
\<close>

definition in_block :: "(nat \<Rightarrow> fval) \<Rightarrow> row \<Rightarrow> nat \<Rightarrow> nat \<Rightarrow> fval list" where
  "in_block undef in_row BLOCK_SIZE offset =
     (let col_range = tl_arange 0 BLOCK_SIZE;
          col_mask = map (\<lambda>c. c + offset < length in_row) col_range
      in tl_load undef in_row (map (\<lambda>c. c + offset) col_range) col_mask (Some NegInf))"

text \<open>
  The arguments of the calls of \<^verbatim>\<open>tl.exp\<close> in one iteration of the first loop of
  \<^verbatim>\<open>softmax_kernel_v1\<close>, entered with the running maximum \<open>in_max\<close>: the argument of the
  rescaling factor, then the arguments of the lanes of the block.
\<close>

definition v1_accumulate_exp_args ::
    "(nat \<Rightarrow> fval) \<Rightarrow> row \<Rightarrow> nat \<Rightarrow> nat \<Rightarrow> fval \<Rightarrow> nat \<Rightarrow> fval list" where
  "v1_accumulate_exp_args undef in_row n_cols BLOCK_SIZE in_max offset =
     (let col_range = tl_arange 0 BLOCK_SIZE;
          col_mask = map (\<lambda>c. c + offset < n_cols) col_range;
          in_data = tl_load undef in_row (map (\<lambda>c. c + offset) col_range) col_mask (Some NegInf);
          in_max_new = tl_maximum in_max (tl_max in_data)
      in fsub in_max in_max_new # map (\<lambda>x. fsub x in_max_new) in_data)"

text \<open>
  The arguments of \<^verbatim>\<open>tl.exp\<close> in one iteration of the last loop, lane by lane, each with the
  mask of its lane: the exponential is taken on the whole block, the store keeps only the
  lanes whose mask holds.
\<close>

definition emit_exp_args ::
    "(nat \<Rightarrow> fval) \<Rightarrow> row \<Rightarrow> nat \<Rightarrow> nat \<Rightarrow> fval \<Rightarrow> nat \<Rightarrow> (bool \<times> fval) list" where
  "emit_exp_args undef in_row n_cols BLOCK_SIZE in_max offset =
     (let col_range = tl_arange 0 BLOCK_SIZE;
          col_mask = map (\<lambda>c. c + offset < n_cols) col_range;
          in_data = tl_load undef in_row (map (\<lambda>c. c + offset) col_range) col_mask None
      in zip col_mask (map (\<lambda>x. fsub x in_max) in_data))"

text \<open>
  All the arguments of a run of \<^verbatim>\<open>softmax_kernel_v1\<close> over the offsets of the row: those
  of the first loop, iteration \<open>i\<close> entered with the running maximum the first \<open>i\<close>
  iterations leave, and those of the last loop with their masks.
\<close>

definition v1_exp_args ::
    "(nat \<Rightarrow> fval) \<Rightarrow> row \<Rightarrow> nat \<Rightarrow> nat list \<Rightarrow> fval list \<times> (bool \<times> fval) list" where
  "v1_exp_args undef in_row BLOCK_SIZE offsets =
     (concat (map (\<lambda>i. v1_accumulate_exp_args undef in_row (length in_row) BLOCK_SIZE
                          (fst (v1_accumulate undef in_row BLOCK_SIZE (take i offsets))) (offsets ! i))
                [0..<length offsets]),
      concat (map (emit_exp_args undef in_row (length in_row) BLOCK_SIZE
                     (fst (v1_accumulate undef in_row BLOCK_SIZE offsets))) offsets))"

text \<open>An argument of the exponential that is at most zero.\<close>

fun le_zero :: "fval \<Rightarrow> bool" where
  "le_zero NegInf = True"
| "le_zero (Fin a) = (a \<le> 0)"
| "le_zero x = False"

section \<open>The softmax of a row of real numbers\<close>

text \<open>
  The specification's contract for a row \<open>in\<close> of real numbers:
  \<open>out[i] = exp(in[i] - M) / S\<close> with \<open>M = max(in)\<close> and \<open>S\<close> the sum of the
  \<open>exp(in[j] - M)\<close>.
\<close>

definition row_max :: "real list \<Rightarrow> real" where
  "row_max rs = Max (set rs)"

definition exp_sum :: "real list \<Rightarrow> real" where
  "exp_sum rs = (\<Sum>r\<leftarrow>rs. exp (r - row_max rs))"

definition softmax_spec :: "real list \<Rightarrow> real list" where
  "softmax_spec rs = map (\<lambda>r. exp (r - row_max rs) / exp_sum rs) rs"

section \<open>Notions for the proofs\<close>

text \<open>
  An element that is finite or minus infinity; the finite elements of a block, in order;
  the maximum of a list of reals as an element (minus infinity for the empty list); the
  sum of the exponentials of a list of reals shifted by \<open>m\<close>; the state of the
  accumulation loop that belongs to the finite elements \<open>rs\<close> seen so far; and the
  number of offsets of \<^verbatim>\<open>range(0, n, B)\<close>.
\<close>

fun is_num :: "fval \<Rightarrow> bool" where
  "is_num NegInf = True"
| "is_num (Fin a) = True"
| "is_num x = False"

fun reals_of :: "fval list \<Rightarrow> real list" where
  "reals_of [] = []"
| "reals_of (Fin a # xs) = a # reals_of xs"
| "reals_of (x # xs) = reals_of xs"

definition mx :: "real list \<Rightarrow> fval" where
  "mx rs = (if rs = [] then NegInf else Fin (Max (set rs)))"

definition esum :: "real \<Rightarrow> real list \<Rightarrow> real" where
  "esum m rs = (\<Sum>r\<leftarrow>rs. exp (r - m))"

definition acc_state :: "real list \<Rightarrow> fval \<times> fval" where
  "acc_state rs = (mx rs, Fin (esum (Max (set rs)) rs))"

definition n_chunks :: "nat \<Rightarrow> nat \<Rightarrow> nat" where
  "n_chunks n B = (n + B - 1) div B"

section \<open>The passes of the kernels\<close>

subsection \<open>Blocks and reductions\<close>

lemma load_block_other:
  "tl_load undef xs (map (\<lambda>c. c + off) (tl_arange 0 B)) (map (\<lambda>c. c + off < n) (tl_arange 0 B)) (Some v) =
     map (\<lambda>i. if i + off < n then xs ! (i + off) else v) [0..<B]"
  by (simp add: tl_load_def tl_arange_def zip_map_map zip_same_conv_map)

lemma load_block_none:
  "tl_load undef xs (map (\<lambda>c. c + off) (tl_arange 0 B)) (map (\<lambda>c. c + off < n) (tl_arange 0 B)) None =
     map (\<lambda>i. if i + off < n then xs ! (i + off) else undef (i + off)) [0..<B]"
  by (simp add: tl_load_def tl_arange_def zip_map_map zip_same_conv_map)

lemma reals_of_append: "reals_of (xs @ ys) = reals_of xs @ reals_of ys"
  by (induction xs rule: reals_of.induct) simp_all

lemma reals_of_replicate_NegInf: "reals_of (replicate k NegInf) = []"
  by (induction k) simp_all

lemma reals_of_map_Fin: "reals_of (map Fin rs) = rs"
  by (induction rs) simp_all

lemma mx_Nil: "mx [] = NegInf"
  by (simp add: mx_def)

lemma mx_single: "mx [r] = Fin r"
  by (simp add: mx_def)

lemma mx_maximum: "tl_maximum (mx as) (mx bs) = mx (as @ bs)"
proof (cases "as = []")
  case True
  then show ?thesis by (cases "bs = []") (simp_all add: mx_def)
next
  case False
  show ?thesis
  proof (cases "bs = []")
    case True
    with False show ?thesis by (simp add: mx_def)
  next
    case bs: False
    have "Max (set as \<union> set bs) = max (Max (set as)) (Max (set bs))"
      using False bs by (intro Max_Un) simp_all
    with False bs show ?thesis by (simp add: mx_def)
  qed
qed

lemma foldl_maximum_num:
  "list_all is_num ds \<Longrightarrow> foldl tl_maximum (mx as) ds = mx (as @ reals_of ds)"
proof (induction ds arbitrary: as)
  case Nil
  then show ?case by simp
next
  case (Cons x ds)
  show ?case
  proof (cases x)
    case NegInf
    have "tl_maximum (mx as) NegInf = mx as"
      using mx_maximum [of as "[]"] by (simp add: mx_Nil)
    with Cons NegInf show ?thesis by simp
  next
    case (Fin r)
    have "tl_maximum (mx as) (Fin r) = mx (as @ [r])"
      using mx_maximum [of as "[r]"] by (simp add: mx_single)
    with Cons Fin show ?thesis by simp
  qed (use Cons.prems in simp_all)
qed

lemma tl_max_num: "list_all is_num ds \<Longrightarrow> tl_max ds = mx (reals_of ds)"
proof (cases ds)
  case Nil
  then show ?thesis by (simp add: mx_Nil)
next
  case (Cons x ys)
  assume n: "list_all is_num ds"
  show ?thesis
  proof (cases x)
    case NegInf
    with Cons n foldl_maximum_num [of ys "[]"] show ?thesis by (simp add: mx_Nil)
  next
    case (Fin r)
    with Cons n foldl_maximum_num [of ys "[r]"] show ?thesis by (simp add: mx_single)
  qed (use Cons n in simp_all)
qed

lemma esum_append: "esum m (as @ bs) = esum m as + esum m bs"
  by (simp add: esum_def)

lemma esum_rescale: "esum m rs * exp (m - m') = esum m' rs"
proof -
  have "exp (r - m) * exp (m - m') = exp (r - m')" for r :: real
    by (simp add: exp_add [symmetric])
  then show ?thesis
    by (simp add: esum_def sum_list_mult_const [symmetric] o_def)
qed

lemma foldl_fadd_exp:
  "list_all is_num ds \<Longrightarrow>
   foldl fadd (Fin a) (map (\<lambda>x. tl_exp (fsub x (Fin m))) ds) = Fin (a + esum m (reals_of ds))"
proof (induction ds arbitrary: a)
  case Nil
  then show ?case by (simp add: esum_def)
next
  case (Cons x ds)
  then show ?case by (cases x) (simp_all add: fsub_def esum_def)
qed

lemma tl_sum_exp:
  "list_all is_num ds \<Longrightarrow>
   tl_sum (map (\<lambda>x. tl_exp (fsub x (Fin m))) ds) = Fin (esum m (reals_of ds))"
  using foldl_fadd_exp [of ds 0 m] by (simp add: tl_sum_def)

subsection \<open>The block at an offset\<close>

text \<open>
  The block loaded with \<open>other = -\<infinity>\<close> at an offset inside the row is the next \<open>B\<close>
  elements of the row, padded with minus infinity to \<open>B\<close> lanes.
\<close>

lemma block_as_list:
  assumes "off \<le> length xs"
  shows "map (\<lambda>i. if i + off < length xs then xs ! (i + off) else NegInf) [0..<B] =
         take B (drop off xs) @ replicate (B - (length xs - off)) NegInf"
proof (rule nth_equalityI)
  show "length (map (\<lambda>i. if i + off < length xs then xs ! (i + off) else NegInf) [0..<B]) =
        length (take B (drop off xs) @ replicate (B - (length xs - off)) NegInf)"
    using assms by simp
next
  fix i
  assume "i < length (map (\<lambda>i. if i + off < length xs then xs ! (i + off) else NegInf) [0..<B])"
  then have i: "i < B" by simp
  show "map (\<lambda>i. if i + off < length xs then xs ! (i + off) else NegInf) [0..<B] ! i =
        (take B (drop off xs) @ replicate (B - (length xs - off)) NegInf) ! i"
  proof (cases "i + off < length xs")
    case True
    then have "i < length xs - off" by arith
    with i True show ?thesis by (simp add: nth_append add.commute)
  next
    case False
    then have "\<not> i < length xs - off" by arith
    with i False assms show ?thesis by (simp add: nth_append)
  qed
qed

lemma list_all_take_drop: "list_all P xs \<Longrightarrow> list_all P (take B (drop off xs))"
  by (auto simp: list_all_iff dest: in_set_takeD in_set_dropD)

lemma block_num:
  assumes "list_all is_num xs" "off \<le> length xs"
  shows "list_all is_num (map (\<lambda>i. if i + off < length xs then xs ! (i + off) else NegInf) [0..<B])"
  using assms unfolding block_as_list [OF assms(2)]
  by (auto simp: list_all_iff dest: in_set_takeD in_set_dropD)

lemma block_reals:
  assumes "off \<le> length xs"
  shows "reals_of (map (\<lambda>i. if i + off < length xs then xs ! (i + off) else NegInf) [0..<B]) =
         reals_of (take B (drop off xs))"
  using assms by (simp add: block_as_list reals_of_append reals_of_replicate_NegInf)

subsection \<open>One iteration of the accumulation loop\<close>

text \<open>
  From the state that belongs to the finite elements \<open>rs\<close> seen so far, a block with
  finite elements \<open>cs\<close> leads to the state of \<open>rs @ cs\<close>, provided one of the two is not
  empty: rescaling the sum by \<open>exp(M - M')\<close> moves every term from the old maximum to the
  new one.
\<close>

lemma fsub_Fin [simp]: "fsub (Fin a) (Fin b) = Fin (a - b)"
  by (simp add: fsub_def)

lemma fsub_NegInf_Fin [simp]: "fsub NegInf (Fin b) = NegInf"
  by (simp add: fsub_def)

lemma accumulate_step:
  assumes num: "list_all is_num ds"
    and ne: "rs \<noteq> [] \<or> reals_of ds \<noteq> []"
  shows "(let in_max_new = tl_maximum (mx rs) (tl_max ds)
          in (in_max_new,
              fadd (fmul (Fin (esum (Max (set rs)) rs)) (tl_exp (fsub (mx rs) in_max_new)))
                   (tl_sum (map (\<lambda>x. tl_exp (fsub x in_max_new)) ds)))) =
         acc_state (rs @ reals_of ds)"
proof -
  let ?cs = "reals_of ds"
  let ?M' = "Max (set (rs @ ?cs))"
  have new: "tl_maximum (mx rs) (tl_max ds) = Fin ?M'"
    using num ne by (simp add: tl_max_num mx_maximum) (simp add: mx_def)
  have rescale: "fmul (Fin (esum (Max (set rs)) rs)) (tl_exp (fsub (mx rs) (Fin ?M'))) = Fin (esum ?M' rs)"
  proof (cases "rs = []")
    case True
    then show ?thesis by (simp add: mx_def esum_def)
  next
    case False
    then show ?thesis by (simp add: mx_def esum_rescale)
  qed
  have "fadd (Fin (esum ?M' rs)) (tl_sum (map (\<lambda>x. tl_exp (fsub x (Fin ?M'))) ds)) =
        Fin (esum ?M' (rs @ ?cs))"
    using num by (simp add: tl_sum_exp esum_append)
  with new rescale ne show ?thesis
    by (simp add: Let_def acc_state_def mx_def)
qed

lemma v1_body_step:
  assumes num: "list_all is_num xs" and off: "off \<le> length xs"
    and ne: "rs \<noteq> [] \<or> reals_of (take B (drop off xs)) \<noteq> []"
  shows "v1_accumulate_body undef xs (length xs) B (acc_state rs) off =
         acc_state (rs @ reals_of (take B (drop off xs)))"
proof -
  let ?ds = "map (\<lambda>i. if i + off < length xs then xs ! (i + off) else NegInf) [0..<B]"
  have n: "list_all is_num ?ds" using num off by (rule block_num)
  have r: "reals_of ?ds = reals_of (take B (drop off xs))" using off by (rule block_reals)
  have "v1_accumulate_body undef xs (length xs) B (acc_state rs) off =
        (let in_max_new = tl_maximum (mx rs) (tl_max ?ds)
          in (in_max_new,
              fadd (fmul (Fin (esum (Max (set rs)) rs)) (tl_exp (fsub (mx rs) in_max_new)))
                   (tl_sum (map (\<lambda>x. tl_exp (fsub x in_max_new)) ?ds))))"
    by (simp add: v1_accumulate_body_def load_block_other acc_state_def [of rs] Let_def)
  also have "\<dots> = acc_state (rs @ reals_of ?ds)"
    using n ne r by (intro accumulate_step) simp_all
  finally show ?thesis by (simp only: r)
qed

subsection \<open>The offsets of a row, and the accumulation loop over them\<close>

lemma is_power_of_two_pos: "is_power_of_two B \<Longrightarrow> 0 < B"
  by (cases B) (simp_all add: is_power_of_two_def)

lemma arange_check_ok: "is_power_of_two B \<Longrightarrow> tl_arange_check 0 B = None"
  by (simp add: tl_arange_check_def is_power_of_two_pos)


lemma py_range_pos:
  "0 < B \<Longrightarrow> py_range 0 n B = Inr (map (\<lambda>k. k * B) [0..<n_chunks n B])"
  by (simp add: py_range_def n_chunks_def)

lemma chunk_start_less: "0 < B \<Longrightarrow> k < n_chunks n B \<Longrightarrow> k * B < n"
proof -
  assume B: "0 < B" and k: "k < n_chunks n B"
  from k have "Suc k \<le> (n + B - 1) div B" by (simp add: n_chunks_def)
  with B have "Suc k * B \<le> n + B - 1" by (simp add: less_eq_div_iff_mult_less_eq)
  with B show ?thesis by simp
qed

lemma chunks_cover: "0 < B \<Longrightarrow> n \<le> n_chunks n B * B"
proof -
  assume B: "0 < B"
  have "n + B - 1 < ((n + B - 1) div B + 1) * B"
    using B by (metis Suc_eq_plus1 dividend_less_div_times mult.commute mult_Suc)
  with B show ?thesis by (simp add: n_chunks_def)
qed

lemma take_chunk: "take (Suc k * B) xs = take (k * B) xs @ take B (drop (k * B) xs)"
  by (simp add: take_add [symmetric] add.commute)

lemma first_chunk_prefix:
  "0 < k \<Longrightarrow> reals_of (take B xs) \<noteq> [] \<Longrightarrow> reals_of (take (k * B) xs) \<noteq> []"
proof -
  assume k: "0 < k" and r: "reals_of (take B xs) \<noteq> []"
  from k obtain j where j: "k = Suc j" by (cases k) simp_all
  have "take (k * B) xs = take B xs @ take (j * B) (drop B xs)"
    unfolding j by (simp add: take_add [symmetric])
  with r show ?thesis by (simp add: reals_of_append)
qed

lemma v1_fold:
  assumes num: "list_all is_num xs" and B: "0 < B"
    and first: "reals_of (take B xs) \<noteq> []"
  shows "k \<le> n_chunks (length xs) B \<Longrightarrow>
         foldl (v1_accumulate_body undef xs (length xs) B) (NegInf, Fin 0) (map (\<lambda>k. k * B) [0..<k]) =
         acc_state (reals_of (take (k * B) xs))"
proof (induction k)
  case 0
  show ?case by (simp add: acc_state_def mx_def esum_def)
next
  case (Suc k)
  then have lt: "k * B < length xs" using B by (simp add: chunk_start_less)
  have ne: "reals_of (take (k * B) xs) \<noteq> [] \<or> reals_of (take B (drop (k * B) xs)) \<noteq> []"
  proof (cases k)
    case 0
    with first show ?thesis by simp
  next
    case (Suc j)
    then have "0 < k" by simp
    with first show ?thesis by (simp add: first_chunk_prefix)
  qed
  have "foldl (v1_accumulate_body undef xs (length xs) B) (NegInf, Fin 0) (map (\<lambda>k. k * B) [0..<Suc k]) =
        v1_accumulate_body undef xs (length xs) B (acc_state (reals_of (take (k * B) xs))) (k * B)"
    using Suc by simp
  also have "\<dots> = acc_state (reals_of (take (k * B) xs) @ reals_of (take B (drop (k * B) xs)))"
    using num lt ne by (intro v1_body_step) simp_all
  also have "\<dots> = acc_state (reals_of (take (Suc k * B) xs))"
    by (simp only: take_chunk reals_of_append)
  finally show ?case .
qed

lemma v1_accumulate_num:
  assumes num: "list_all is_num xs" and B: "0 < B"
    and first: "reals_of (take B xs) \<noteq> []"
  shows "v1_accumulate undef xs B (map (\<lambda>k. k * B) [0..<n_chunks (length xs) B]) =
         acc_state (reals_of xs)"
proof -
  have "take (n_chunks (length xs) B * B) xs = xs"
    using B by (simp add: chunks_cover)
  with v1_fold [OF num B first, of "n_chunks (length xs) B" undef] show ?thesis
    by (simp add: v1_accumulate_def)
qed

subsection \<open>The emission loop\<close>

text \<open>
  Whatever the maximum and the sum are, the emission loop writes
  \<open>exp(in[j] - in_max) / in_exp_sum\<close> to every position \<open>j\<close> of the row and leaves the rest of
  the buffer alone; the values of masked-off lanes do not reach the buffer.
\<close>

lemma emit_body_nth:
  "emit_body undef xs (length xs) B m s out off =
     map (\<lambda>j. if off \<le> j \<and> j < off + B \<and> j < length xs
               then fdiv (tl_exp (fsub (xs ! j) m)) s else out ! j) [0..<length out]"
  unfolding emit_body_def Let_def load_block_none tl_store_def
  by (rule map_cong) (auto simp: tl_arange_def)

lemma emit_fold:
  "foldl (emit_body undef xs (length xs) B m s) out (map (\<lambda>k. k * B) [0..<k]) =
     map (\<lambda>j. if j < k * B \<and> j < length xs
               then fdiv (tl_exp (fsub (xs ! j) m)) s else out ! j) [0..<length out]"
proof (induction k)
  case 0
  show ?case by (simp add: map_nth)
next
  case (Suc k)
  show ?case
    unfolding upt_Suc_append [OF le0] map_append foldl_append Suc.IH
    by (simp add: emit_body_nth)
qed

lemma emit_all:
  assumes B: "0 < B"
  shows "emit undef xs B m s out (map (\<lambda>k. k * B) [0..<n_chunks (length xs) B]) =
     map (\<lambda>j. if j < length xs then fdiv (tl_exp (fsub (xs ! j) m)) s else out ! j) [0..<length out]"
proof -
  have "j < length xs \<Longrightarrow> j < n_chunks (length xs) B * B" for j
    using chunks_cover [OF B, of "length xs"] by simp
  then show ?thesis
    unfolding emit_def emit_fold by (intro map_cong) auto
qed


subsection \<open>Rows of real numbers\<close>

lemma exp_sum_esum: "exp_sum rs = esum (row_max rs) rs"
  by (simp add: exp_sum_def esum_def)

lemma esum_pos: "rs \<noteq> [] \<Longrightarrow> 0 < esum m rs"
proof (induction rs)
  case Nil
  then show ?case by simp
next
  case (Cons r rs)
  have "0 \<le> esum m rs"
    by (auto simp: esum_def intro!: sum_list_nonneg)
  moreover have "0 < exp (r - m)" by simp
  ultimately have "0 < exp (r - m) + esum m rs" by (rule add_pos_nonneg [rotated])
  then show ?case by (simp add: esum_def)
qed

lemma exp_sum_pos: "rs \<noteq> [] \<Longrightarrow> 0 < exp_sum rs"
  by (simp add: exp_sum_esum esum_pos)

lemma list_all_num_Fin: "list_all is_num (map Fin rs)"
  by (simp add: list_all_iff)

lemma first_chunk_Fin: "0 < B \<Longrightarrow> rs \<noteq> [] \<Longrightarrow> reals_of (take B (map Fin rs)) \<noteq> []"
  by (cases rs; cases B) simp_all

lemma n_chunks_0: "n_chunks 0 B = 0"
  by (cases B) (simp_all add: n_chunks_def)

lemma v1_accumulate_real:
  assumes "0 < B" "rs \<noteq> []"
  shows "v1_accumulate undef (map Fin rs) B (map (\<lambda>k. k * B) [0..<n_chunks (length rs) B]) =
         (Fin (row_max rs), Fin (exp_sum rs))"
  using v1_accumulate_num [OF list_all_num_Fin assms(1) first_chunk_Fin [OF assms], of undef] assms(2)
  by (simp add: reals_of_map_Fin acc_state_def mx_def row_max_def exp_sum_esum)

lemma emit_real:
  assumes "rs \<noteq> []"
  shows "map (\<lambda>j. if j < length (map Fin rs)
                   then fdiv (tl_exp (fsub (map Fin rs ! j) (Fin (row_max rs)))) (Fin (exp_sum rs))
                   else out ! j) [0..<length out] =
         map (\<lambda>j. if j < length rs then Fin (softmax_spec rs ! j) else out ! j) [0..<length out]"
  using exp_sum_pos [OF assms] by (intro map_cong) (auto simp: softmax_spec_def)

lemma v1_kernel_real:
  assumes B: "0 < B" and pw: "is_power_of_two B"
  shows "softmax_kernel_v1 undef (map Fin rs) out B =
         Inr (map (\<lambda>j. if j < length rs then Fin (softmax_spec rs ! j) else out ! j) [0..<length out])"
proof (cases "rs = []")
  case True
  then show ?thesis
    using B by (simp add: softmax_kernel_v1_def arange_check_ok [OF pw] py_range_pos n_chunks_0 v1_accumulate_def emit_def map_nth)
next
  case False
  have "softmax_kernel_v1 undef (map Fin rs) out B =
        Inr (emit undef (map Fin rs) B (Fin (row_max rs)) (Fin (exp_sum rs)) out
              (map (\<lambda>k. k * B) [0..<n_chunks (length (map Fin rs)) B]))"
    using B v1_accumulate_real [OF B False, of undef]
    by (simp add: softmax_kernel_v1_def arange_check_ok [OF pw] py_range_pos)
  also have "\<dots> = Inr (map (\<lambda>j. if j < length rs then Fin (softmax_spec rs ! j) else out ! j) [0..<length out])"
    unfolding emit_all [OF B] emit_real [OF False] ..
  finally show ?thesis .
qed

lemma v1_kernel_real_same_length:
  assumes "0 < B" "length out = length rs" "is_power_of_two B"
  shows "softmax_kernel_v1 undef (map Fin rs) out B = Inr (map Fin (softmax_spec rs))"
proof -
  have "map (\<lambda>j. if j < length rs then Fin (softmax_spec rs ! j) else out ! j) [0..<length out] =
        map Fin (softmax_spec rs)"
    using assms(2) by (intro nth_equalityI) (simp_all add: softmax_spec_def)
  with v1_kernel_real [OF assms(1) assms(3)] show ?thesis by simp
qed

subsection \<open>The loops of the naive kernel\<close>

lemma naive_max_fold:
  assumes num: "list_all is_num xs" and B: "0 < B"
  shows "k \<le> n_chunks (length xs) B \<Longrightarrow>
         foldl (naive_max_body undef xs (length xs) B) NegInf (map (\<lambda>k. k * B) [0..<k]) =
         mx (reals_of (take (k * B) xs))"
proof (induction k)
  case 0
  show ?case by (simp add: mx_def)
next
  case (Suc k)
  then have lt: "k * B \<le> length xs" using B chunk_start_less [of B k "length xs"] by simp
  let ?ds = "map (\<lambda>i. if i + k * B < length xs then xs ! (i + k * B) else NegInf) [0..<B]"
  have "foldl (naive_max_body undef xs (length xs) B) NegInf (map (\<lambda>k. k * B) [0..<Suc k]) =
        naive_max_body undef xs (length xs) B (mx (reals_of (take (k * B) xs))) (k * B)"
    using Suc by simp
  also have "\<dots> = tl_maximum (mx (reals_of (take (k * B) xs))) (tl_max ?ds)"
    by (simp add: naive_max_body_def load_block_other Let_def)
  also have "\<dots> = mx (reals_of (take (k * B) xs) @ reals_of (take B (drop (k * B) xs)))"
    using block_num [OF num lt, of B] block_reals [OF lt, of B]
    by (simp add: tl_max_num mx_maximum)
  also have "\<dots> = mx (reals_of (take (Suc k * B) xs))"
    by (simp only: take_chunk reals_of_append)
  finally show ?case .
qed

lemma naive_sum_fold:
  assumes num: "list_all is_num xs" and B: "0 < B"
  shows "k \<le> n_chunks (length xs) B \<Longrightarrow>
         foldl (naive_sum_body undef xs (length xs) B (Fin m)) (Fin 0) (map (\<lambda>k. k * B) [0..<k]) =
         Fin (esum m (reals_of (take (k * B) xs)))"
proof (induction k)
  case 0
  show ?case by (simp add: esum_def)
next
  case (Suc k)
  then have lt: "k * B \<le> length xs" using B chunk_start_less [of B k "length xs"] by simp
  let ?ds = "map (\<lambda>i. if i + k * B < length xs then xs ! (i + k * B) else NegInf) [0..<B]"
  have "foldl (naive_sum_body undef xs (length xs) B (Fin m)) (Fin 0) (map (\<lambda>k. k * B) [0..<Suc k]) =
        naive_sum_body undef xs (length xs) B (Fin m) (Fin (esum m (reals_of (take (k * B) xs)))) (k * B)"
    using Suc by simp
  also have "\<dots> = fadd (Fin (esum m (reals_of (take (k * B) xs)))) (tl_sum (map (\<lambda>x. tl_exp (fsub x (Fin m))) ?ds))"
    by (simp add: naive_sum_body_def load_block_other Let_def)
  also have "\<dots> = Fin (esum m (reals_of (take (k * B) xs)) + esum m (reals_of (take B (drop (k * B) xs))))"
    unfolding tl_sum_exp [OF block_num [OF num lt, of B]] block_reals [OF lt, of B]
    by simp
  also have "\<dots> = Fin (esum m (reals_of (take (Suc k * B) xs)))"
    by (simp only: take_chunk reals_of_append esum_append)
  finally show ?case .
qed

lemma naive_kernel_num:
  assumes num: "list_all is_num xs" and B: "0 < B" and ne: "reals_of xs \<noteq> []" and pw: "is_power_of_two B"
  shows "softmax_kernel_naive undef xs out B =
         Inr (emit undef xs B (Fin (Max (set (reals_of xs)))) (Fin (esum (Max (set (reals_of xs))) (reals_of xs))) out
               (map (\<lambda>k. k * B) [0..<n_chunks (length xs) B]))"
proof -
  have t: "take (n_chunks (length xs) B * B) xs = xs"
    using B by (simp add: chunks_cover)
  have m: "foldl (naive_max_body undef xs (length xs) B) NegInf (map (\<lambda>k. k * B) [0..<n_chunks (length xs) B]) =
           Fin (Max (set (reals_of xs)))"
    using naive_max_fold [OF num B, of "n_chunks (length xs) B" undef] t ne by (simp add: mx_def)
  have s: "foldl (naive_sum_body undef xs (length xs) B (Fin (Max (set (reals_of xs))))) (Fin 0)
             (map (\<lambda>k. k * B) [0..<n_chunks (length xs) B]) =
           Fin (esum (Max (set (reals_of xs))) (reals_of xs))"
    using naive_sum_fold [OF num B, of "n_chunks (length xs) B" undef] t by simp
  show ?thesis
    using B by (simp add: softmax_kernel_naive_def arange_check_ok [OF pw] py_range_pos m s Let_def)
qed

lemma v1_kernel_num:
  assumes num: "list_all is_num xs" and B: "0 < B" and first: "reals_of (take B xs) \<noteq> []" and pw: "is_power_of_two B"
  shows "softmax_kernel_v1 undef xs out B =
         Inr (emit undef xs B (Fin (Max (set (reals_of xs)))) (Fin (esum (Max (set (reals_of xs))) (reals_of xs))) out
               (map (\<lambda>k. k * B) [0..<n_chunks (length xs) B]))"
proof -
  have "reals_of xs \<noteq> []"
    using first by (metis append_take_drop_id reals_of_append append_is_Nil_conv)
  then show ?thesis
    using B v1_accumulate_num [OF num B first, of undef]
    by (simp add: softmax_kernel_v1_def arange_check_ok [OF pw] py_range_pos acc_state_def mx_def)
qed

lemma kernels_agree_num:
  assumes num: "list_all is_num xs" and B: "0 < B" and first: "reals_of (take B xs) \<noteq> []" and pw: "is_power_of_two B"
  shows "softmax_kernel_naive undef xs out B = softmax_kernel_v1 undef xs out B"
proof -
  have "reals_of xs \<noteq> []"
    using first by (metis append_take_drop_id reals_of_append append_is_Nil_conv)
  with naive_kernel_num [OF num B _ pw] v1_kernel_num [OF num B first pw] show ?thesis by simp
qed

subsection \<open>The softmax of a row\<close>

lemma softmax_spec_length: "length (softmax_spec rs) = length rs"
  by (simp add: softmax_spec_def)

lemma softmax_spec_nth:
  "i < length rs \<Longrightarrow> softmax_spec rs ! i = exp (rs ! i - row_max rs) / exp_sum rs"
  by (simp add: softmax_spec_def)

lemma softmax_spec_sum: "rs \<noteq> [] \<Longrightarrow> sum_list (softmax_spec rs) = 1"
proof -
  assume ne: "rs \<noteq> []"
  have "sum_list (softmax_spec rs) = (\<Sum>r\<leftarrow>rs. exp (r - row_max rs) * inverse (exp_sum rs))"
    by (simp add: softmax_spec_def divide_inverse)
  also have "\<dots> = exp_sum rs * inverse (exp_sum rs)"
    by (simp add: sum_list_mult_const exp_sum_def)
  also have "\<dots> = 1"
    using exp_sum_pos [OF ne] by simp
  finally show ?thesis .
qed

lemma esum_member_le: "r \<in> set rs \<Longrightarrow> exp (r - m) \<le> esum m rs"
proof -
  assume r: "r \<in> set rs"
  have "esum m rs = exp (r - m) + esum m (remove1 r rs)"
    unfolding esum_def using r by (rule sum_list_map_remove1)
  moreover have "0 \<le> esum m (remove1 r rs)"
    by (auto simp: esum_def intro!: sum_list_nonneg)
  ultimately show ?thesis by simp
qed

lemma esum_member_less: "r \<in> set rs \<Longrightarrow> 2 \<le> length rs \<Longrightarrow> exp (r - m) < esum m rs"
proof -
  assume r: "r \<in> set rs" and l: "2 \<le> length rs"
  have "esum m rs = exp (r - m) + esum m (remove1 r rs)"
    unfolding esum_def using r by (rule sum_list_map_remove1)
  moreover have "remove1 r rs \<noteq> []"
    using r l by (auto simp: length_remove1 dest!: arg_cong [where f = length])
  then have "0 < esum m (remove1 r rs)" by (rule esum_pos)
  ultimately show ?thesis by simp
qed

lemma softmax_spec_bounds:
  assumes "p \<in> set (softmax_spec rs)"
  shows "0 < p" "p \<le> 1" "2 \<le> length rs \<Longrightarrow> p < 1"
proof -
  from assms obtain r where r: "r \<in> set rs" and p: "p = exp (r - row_max rs) / exp_sum rs"
    by (auto simp: softmax_spec_def)
  from r have ne: "rs \<noteq> []" by auto
  have pos: "0 < exp_sum rs" using ne by (rule exp_sum_pos)
  then show "0 < p" by (simp add: p)
  show "p \<le> 1" using pos esum_member_le [OF r, of "row_max rs"] by (simp add: p exp_sum_esum)
  show "p < 1" if "2 \<le> length rs"
    using pos esum_member_less [OF r that, of "row_max rs"] by (simp add: p exp_sum_esum)
qed

subsection \<open>The length of the result\<close>


subsection \<open>The arguments of the exponential\<close>

lemma Fin_in_reals_of: "Fin r \<in> set ds \<Longrightarrow> r \<in> set (reals_of ds)"
  by (induction ds rule: reals_of.induct) auto

lemma reals_of_nonempty_iff: "reals_of ds \<noteq> [] \<longleftrightarrow> (\<exists>r. Fin r \<in> set ds)"
  by (induction ds rule: reals_of.induct) auto

lemma acc_args_ok:
  assumes num: "list_all is_num ds" and ne: "rs \<noteq> [] \<or> reals_of ds \<noteq> []"
    and a: "a \<in> set (fsub (mx rs) (tl_maximum (mx rs) (tl_max ds))
                      # map (\<lambda>x. fsub x (tl_maximum (mx rs) (tl_max ds))) ds)"
  shows "le_zero a"
proof -
  let ?M' = "Max (set (rs @ reals_of ds))"
  have new: "tl_maximum (mx rs) (tl_max ds) = Fin ?M'"
    using num ne by (simp add: tl_max_num mx_maximum) (simp add: mx_def)
  have fst: "le_zero (fsub (mx rs) (Fin ?M'))"
  proof (cases "rs = []")
    case True
    then show ?thesis by (simp add: mx_def)
  next
    case False
    then have "Max (set rs) \<le> ?M'" by (intro Max_mono) auto
    with False show ?thesis by (simp add: mx_def)
  qed
  have rest: "le_zero (fsub x (Fin ?M'))" if "x \<in> set ds" for x
  proof (cases x)
    case (Fin r)
    with that have "r \<in> set (rs @ reals_of ds)" by (simp add: Fin_in_reals_of)
    then have "r \<le> ?M'" by (intro Max_ge) auto
    with Fin show ?thesis by simp
  qed (use that num in \<open>auto simp: list_all_iff\<close>)
  from a new fst rest show ?thesis by auto
qed

lemma take_offsets: "k \<le> n \<Longrightarrow> take k (map (\<lambda>k. k * B) [0..<n]) = map (\<lambda>k. k * (B::nat)) [0..<k]"
  by (simp add: take_map min_def)

lemma v1_accumulate_prefix:
  assumes num: "list_all is_num xs" and B: "0 < B"
    and first: "reals_of (take B xs) \<noteq> []" and k: "k \<le> n_chunks (length xs) B"
  shows "v1_accumulate undef xs B (take k (map (\<lambda>k. k * B) [0..<n_chunks (length xs) B])) =
         acc_state (reals_of (take (k * B) xs))"
  using v1_fold [OF num B first k, of undef] k by (simp add: v1_accumulate_def take_offsets)

lemma chunk_has_Fin:
  assumes "0 < B" "off < length rs"
  shows "reals_of (take B (drop off (map Fin rs))) \<noteq> []"
proof -
  have "take B (drop off (map Fin rs)) = map Fin (take B (drop off rs))"
    by (simp add: take_map drop_map)
  moreover have "take B (drop off rs) \<noteq> []" using assms by simp
  ultimately show ?thesis by (simp add: reals_of_map_Fin)
qed

lemma acc_args_real:
  assumes B: "0 < B" and ne: "rs \<noteq> []" and i: "i < n_chunks (length rs) B"
    and a: "a \<in> set (v1_accumulate_exp_args undef (map Fin rs) (length (map Fin rs)) B
              (fst (v1_accumulate undef (map Fin rs) B (take i (map (\<lambda>k. k * B) [0..<n_chunks (length rs) B]))))
              (map (\<lambda>k. k * B) [0..<n_chunks (length rs) B] ! i))"
  shows "le_zero a"
proof -
  let ?xs = "map Fin rs"
  let ?pre = "reals_of (take (i * B) ?xs)"
  let ?ds = "map (\<lambda>j. if j + i * B < length ?xs then ?xs ! (j + i * B) else NegInf) [0..<B]"
  have lt: "i * B < length rs" using B i by (rule chunk_start_less)
  have st: "fst (v1_accumulate undef ?xs B (take i (map (\<lambda>k. k * B) [0..<n_chunks (length rs) B]))) = mx ?pre"
    using v1_accumulate_prefix [where xs = "map Fin rs" and k = i and undef = undef,
        OF list_all_num_Fin B first_chunk_Fin [OF B ne]] i
    by (simp add: acc_state_def)
  have off: "map (\<lambda>k. k * B) [0..<n_chunks (length rs) B] ! i = i * B"
    using i by simp
  have n: "list_all is_num ?ds"
    using lt by (intro block_num list_all_num_Fin) simp
  have r: "reals_of ?ds \<noteq> []"
    using block_reals [of "i * B" ?xs B] chunk_has_Fin [OF B lt] lt by simp
  have "a \<in> set (fsub (mx ?pre) (tl_maximum (mx ?pre) (tl_max ?ds))
                   # map (\<lambda>x. fsub x (tl_maximum (mx ?pre) (tl_max ?ds))) ?ds)"
    using a unfolding st off
    by (simp add: v1_accumulate_exp_args_def load_block_other Let_def)
  with n r show ?thesis by (intro acc_args_ok [of ?ds ?pre a]) simp_all
qed

lemma emit_exp_args_eq:
  "emit_exp_args undef xs n B m off =
     map (\<lambda>i. (i + off < n, fsub (if i + off < n then xs ! (i + off) else undef (i + off)) m)) [0..<B]"
  unfolding emit_exp_args_def Let_def load_block_none
  by (simp add: tl_arange_def zip_map_map zip_same_conv_map)

lemma emit_args_real:
  assumes ne: "rs \<noteq> []"
    and a: "(True, a) \<in> set (emit_exp_args undef (map Fin rs) (length (map Fin rs)) B (Fin (row_max rs)) off)"
  shows "le_zero a"
proof -
  from a obtain j where j: "j + off < length rs" and av: "a = fsub (Fin (rs ! (j + off))) (Fin (row_max rs))"
    by (auto simp: emit_exp_args_eq split: if_splits)
  have "rs ! (j + off) \<le> Max (set rs)"
    using j by (intro Max_ge) simp_all
  then show ?thesis by (simp add: av row_max_def)
qed

subsection \<open>The state at the block boundaries\<close>

lemma plain_state:
  assumes "list_all is_num ds" and "reals_of ds \<noteq> []"
  shows "(tl_max ds, tl_sum (map (\<lambda>x. tl_exp (fsub x (tl_max ds))) ds)) = acc_state (reals_of ds)"
proof -
  have m: "tl_max ds = Fin (Max (set (reals_of ds)))"
    using assms by (simp add: tl_max_num mx_def)
  show ?thesis
    unfolding m tl_sum_exp [OF assms(1)] using assms(2) by (simp add: acc_state_def mx_def)
qed

lemma in_block_eq:
  "in_block undef xs B off = map (\<lambda>i. if i + off < length xs then xs ! (i + off) else NegInf) [0..<B]"
  by (simp add: in_block_def Let_def load_block_other)

lemma list_all_take: "list_all P xs \<Longrightarrow> list_all P (take n xs)"
  by (auto simp: list_all_iff dest: in_set_takeD)

lemma acc_state_fst: "rs \<noteq> [] \<Longrightarrow> fst (acc_state rs) = Fin (Max (set rs))"
  by (simp add: acc_state_def mx_def)

subsection \<open>Block sizes, and the shape of the running state\<close>

lemma pow2_1: "is_power_of_two 1"
  by (simp add: is_power_of_two_def)



lemma reals_of_in: "r \<in> set (reals_of ds) \<Longrightarrow> Fin r \<in> set ds"
  by (induction ds rule: reals_of.induct) auto

lemma esum_ge_1: "rs \<noteq> [] \<Longrightarrow> 1 \<le> esum (Max (set rs)) rs"
proof -
  assume "rs \<noteq> []"
  then have "Max (set rs) \<in> set rs" by (intro Max_in) simp_all
  from esum_member_le [OF this, of "Max (set rs)"] show ?thesis by simp
qed

lemma acc_state_shape:
  assumes "reals_of ds \<noteq> []"
  shows "\<exists>m s. acc_state (reals_of ds) = (Fin m, Fin s) \<and> Fin m \<in> set ds
           \<and> (\<forall>r. Fin r \<in> set ds \<longrightarrow> r \<le> m) \<and> 1 \<le> s"
proof -
  let ?M = "Max (set (reals_of ds))"
  have "?M \<in> set (reals_of ds)" using assms by (intro Max_in) simp_all
  then have 1: "Fin ?M \<in> set ds" by (rule reals_of_in)
  have 2: "r \<le> ?M" if "Fin r \<in> set ds" for r
    using Fin_in_reals_of [OF that] by (intro Max_ge) simp_all
  from 1 2 esum_ge_1 [OF assms] assms show ?thesis
    by (auto simp: acc_state_def mx_def)
qed

section \<open>The claims\<close>




text \<open>
  Claim C2 at the row \<open>[-\<infinity>, 0]\<close> with block size 1: the two kernels return different
  rows, \<open>[0, 1]\<close> from the three loops and not-a-number twice from the online loop, whose
  first block holds nothing but minus infinity.
\<close>

theorem naive_v1_differ_after_neginf_block:
  "softmax_kernel_naive (\<lambda>a. NaN) [NegInf, Fin 0] [Fin 0, Fin 0] 1 \<noteq>
   softmax_kernel_v1 (\<lambda>a. NaN) [NegInf, Fin 0] [Fin 0, Fin 0] 1"
  by (simp add: softmax_kernel_v1_def softmax_kernel_naive_def tl_arange_check_def
      is_power_of_two_def py_range_def v1_accumulate_def emit_def
      v1_accumulate_body_def naive_max_body_def naive_sum_body_def emit_body_def
      tl_load_def tl_store_def tl_arange_def tl_sum_def fsub_def Let_def upt_conv_Cons)

text \<open>
  Claim C3 at the row \<open>[-\<infinity>, 0]\<close>, which holds no not-a-number: with block size 1 the
  first block is all minus infinity and the output is not-a-number twice, with block size 2
  the one block holds the finite entry and the output is \<open>[0, 1]\<close>.
\<close>

theorem block_size_changes_output_after_neginf_block:
  "is_power_of_two 1 \<and> is_power_of_two 2
   \<and> softmax_kernel_v1 (\<lambda>a. NaN) [NegInf, Fin 0] [Fin 0, Fin 0] 1 = Inr [NaN, NaN]
   \<and> softmax_kernel_v1 (\<lambda>a. NaN) [NegInf, Fin 0] [Fin 0, Fin 0] 2 = Inr [Fin 0, Fin 1]"
  by (simp add: softmax_kernel_v1_def tl_arange_check_def
      is_power_of_two_def py_range_def v1_accumulate_def emit_def
      v1_accumulate_body_def emit_body_def
      tl_load_def tl_store_def tl_arange_def tl_sum_def fsub_def Let_def upt_conv_Cons)

text \<open>
  Claim C4 at the row \<open>[-\<infinity>, -\<infinity>, 3]\<close> with block size 1: after all three blocks the
  running maximum is the maximum of the row, 3, and the running sum is not a number, where
  the sum of the \<open>exp(value - 3)\<close> over the row is 1.
\<close>

theorem v1_accumulate_nan_sum_after_neginf_blocks:
  "py_range 0 (length [NegInf, NegInf, Fin 3]) 1 = Inr [0, 1, 2]
   \<and> v1_accumulate (\<lambda>a. NaN) [NegInf, NegInf, Fin 3] 1 [0, 1, 2] = (Fin 3, NaN)"
  by (simp add: py_range_def v1_accumulate_def v1_accumulate_body_def
      tl_load_def tl_arange_def tl_sum_def fsub_def Let_def upt_conv_Cons)




text \<open>
  Claim C6, as the kernel has it. For a row of \<open>n \<ge> 1\<close> finite numbers, a block size that
  is a power of two and an output buffer of the length of the row, every entry of the
  output lies in the closed interval \<open>[0, 1]\<close>. Both ends are reached: 1 by the row of a
  single entry, and 0, in floating point, by an entry far below the maximum.
\<close>

theorem output_entries_in_closed_unit_interval:
  assumes "rs \<noteq> []" and "is_power_of_two c" and "length out = length rs"
  shows "\<exists>ps. softmax_kernel_v1 undef (map Fin rs) out c = Inr (map Fin ps)
            \<and> length ps = length rs \<and> (\<forall>p\<in>set ps. 0 \<le> p \<and> p \<le> 1)"
proof -
  have "softmax_kernel_v1 undef (map Fin rs) out c = Inr (map Fin (softmax_spec rs))"
    using assms by (intro v1_kernel_real_same_length is_power_of_two_pos) simp_all
  moreover have "\<forall>p\<in>set (softmax_spec rs). 0 \<le> p \<and> p \<le> 1"
    using softmax_spec_bounds(1,2) by (auto intro: less_imp_le)
  ultimately show ?thesis
    by (auto simp: softmax_spec_length intro!: exI [of _ "softmax_spec rs"])
qed

theorem output_entries_in_closed_unit_interval_witness:
  "[5, 5, 5, 5] \<noteq> ([] :: real list) \<and> is_power_of_two 1
   \<and> length [NaN, NaN, NaN, NaN] = length [5, 5, 5, 5 :: real]
   \<and> (\<exists>ps. softmax_kernel_v1 (\<lambda>a. NaN) [Fin 5, Fin 5, Fin 5, Fin 5] [NaN, NaN, NaN, NaN] 1 = Inr (map Fin ps)
          \<and> length ps = length [5, 5, 5, 5 :: real] \<and> list_all (\<lambda>p. 0 \<le> p \<and> p \<le> 1) ps)"
  using output_entries_in_closed_unit_interval [of "[5, 5, 5, 5]" 1 "[NaN, NaN, NaN, NaN]" "\<lambda>a. NaN"] pow2_1
  by (simp add: list_all_iff Ball_def)

text \<open>
  The open interval of the claim fails on a row of one entry: the output of \<open>[7]\<close> is
  \<open>[1]\<close>, as the specification's own degenerate case says.
\<close>

theorem single_entry_row_output_one:
  "softmax_kernel_v1 (\<lambda>a. NaN) [Fin 7] [NaN] 1 = Inr [Fin 1] \<and> \<not> ((1::real) < 1)"
  using v1_kernel_real_same_length [of 1 "[NaN]" "[7]" "\<lambda>a. NaN"] pow2_1
  by (simp add: softmax_spec_def exp_sum_def row_max_def)

text \<open>
  Claim C7 at the row \<open>[-\<infinity>, 0]\<close> with block size 1. The first block holds nothing but
  minus infinity: the running maximum stays at minus infinity, and the rescaling factor
  \<open>exp(-\<infinity> - (-\<infinity>))\<close> is not a number, which the running sum never loses. After the
  block with the finite entry the running maximum is the right one, 0, but the running sum
  is not a number, and so is every entry of the output; \<^verbatim>\<open>softmax_kernel_naive\<close> returns
  \<open>[0, 1]\<close> for the same row.
\<close>

theorem leading_neginf_block_nan_sum:
  "py_range 0 (length [NegInf, Fin 0]) 1 = Inr [0, 1]
   \<and> v1_accumulate (\<lambda>a. NaN) [NegInf, Fin 0] 1 [0] = (NegInf, NaN)
   \<and> v1_accumulate (\<lambda>a. NaN) [NegInf, Fin 0] 1 [0, 1] = (Fin 0, NaN)
   \<and> softmax_kernel_v1 (\<lambda>a. NaN) [NegInf, Fin 0] [Fin 0, Fin 0] 1 = Inr [NaN, NaN]
   \<and> softmax_kernel_naive (\<lambda>a. NaN) [NegInf, Fin 0] [Fin 0, Fin 0] 1 = Inr [Fin 0, Fin 1]"
  by (simp add: softmax_kernel_v1_def softmax_kernel_naive_def tl_arange_check_def
      is_power_of_two_def py_range_def v1_accumulate_def emit_def
      v1_accumulate_body_def naive_max_body_def naive_sum_body_def emit_body_def
      tl_load_def tl_store_def tl_arange_def tl_sum_def fsub_def Let_def upt_conv_Cons)

text \<open>
  Claim C9, as the kernel has it. For a row of \<open>n \<ge> 1\<close> real numbers and a block size
  \<open>c \<ge> 1\<close>: every argument handed to \<^verbatim>\<open>tl.exp\<close> in the accumulation loop (the rescaling
  factor and all lanes, the padded ones too) is at most zero, and so is every argument of
  the emission loop on a lane whose mask holds. The masked-off lanes of the emission loop
  are exponentiated as well, on values the program does not determine, and their results
  are not stored.
\<close>

theorem exp_arguments_at_most_zero:
  assumes "rs \<noteq> []" and "1 \<le> c" and "py_range 0 (length rs) c = Inr offsets"
  shows "(\<forall>a\<in>set (fst (v1_exp_args undef (map Fin rs) c offsets)). le_zero a)
       \<and> (\<forall>(m, a)\<in>set (snd (v1_exp_args undef (map Fin rs) c offsets)). m \<longrightarrow> le_zero a)"
proof -
  from assms have B: "0 < c" and offs: "offsets = map (\<lambda>k. k * c) [0..<n_chunks (length rs) c]"
    by (simp_all add: py_range_pos)
  have fin: "fst (v1_accumulate undef (map Fin rs) c offsets) = Fin (row_max rs)"
    unfolding offs using v1_accumulate_real [OF B assms(1), of undef] by simp
  have 1: "le_zero a" if "a \<in> set (fst (v1_exp_args undef (map Fin rs) c offsets))" for a
  proof -
    from that obtain i where "i < n_chunks (length rs) c"
      and "a \<in> set (v1_accumulate_exp_args undef (map Fin rs) (length (map Fin rs)) c
              (fst (v1_accumulate undef (map Fin rs) c (take i offsets))) (offsets ! i))"
      unfolding v1_exp_args_def offs by auto
    then show ?thesis unfolding offs by (intro acc_args_real [OF B assms(1)])
  qed
  have 2: "le_zero a" if "(True, a) \<in> set (snd (v1_exp_args undef (map Fin rs) c offsets))" for a
  proof -
    from that obtain off where
      "(True, a) \<in> set (emit_exp_args undef (map Fin rs) (length (map Fin rs)) c (Fin (row_max rs)) off)"
      unfolding v1_exp_args_def snd_conv fin by auto
    then show ?thesis by (intro emit_args_real [OF assms(1)])
  qed
  from 1 2 show ?thesis by auto
qed

theorem exp_arguments_at_most_zero_witness:
  "[1000, 1, 1] \<noteq> ([] :: real list) \<and> (1::nat) \<le> 1
   \<and> py_range 0 (length [1000, 1, 1 :: real]) 1 = Inr [0, 1, 2]
   \<and> list_all le_zero (fst (v1_exp_args (\<lambda>a. Fin 0) [Fin 1000, Fin 1, Fin 1] 1 [0, 1, 2]))
   \<and> list_all (\<lambda>(m, a). m \<longrightarrow> le_zero a)
        (snd (v1_exp_args (\<lambda>a. Fin 0) [Fin 1000, Fin 1, Fin 1] 1 [0, 1, 2]))"
proof -
  have r: "py_range 0 (length [1000, 1, 1 :: real]) 1 = Inr [0, 1, 2]"
    by (simp add: py_range_def upt_conv_Cons)
  have "[1000, 1, 1] \<noteq> ([] :: real list)" and "(1::nat) \<le> 1" by simp_all
  from exp_arguments_at_most_zero [OF this r, of "\<lambda>a. Fin 0"] r show ?thesis
    by (simp add: list_all_iff)
qed

text \<open>
  The claim for every argument fails on a masked-off lane of the emission loop: with the
  row \<open>[-5, -5, -5]\<close>, block size 2 and a masked-off lane that reads 0, the second block
  hands \<open>0 - (-5) = 5\<close> to the exponential.
\<close>

theorem masked_lane_exp_argument_positive:
  "py_range 0 (length [Fin (- 5), Fin (- 5), Fin (- 5)]) 2 = Inr [0, 2]
   \<and> (False, Fin 5) \<in> set (snd (v1_exp_args (\<lambda>a. Fin 0) [Fin (- 5), Fin (- 5), Fin (- 5)] 2 [0, 2]))
   \<and> \<not> le_zero (Fin 5)"
  by (simp add: py_range_def v1_exp_args_def emit_exp_args_def v1_accumulate_def
      v1_accumulate_body_def tl_load_def tl_arange_def tl_sum_def
      fsub_def Let_def upt_conv_Cons)

text \<open>
  Claim C10, as the kernel has it. Let the row hold finite numbers and minus infinities
  only, with a finite entry in the first block. With the start \<open>(-\<infinity>, 0)\<close>, the rescaling
  term \<open>in_exp_sum * exp(in_max - in_max_new)\<close> of the first iteration is exactly 0, and
  after the first iteration the state is the plain maximum and the plain sum of
  exponentials of the first block. After \<open>k \<ge> 1\<close> iterations the running maximum is finite,
  the largest finite entry read so far, and the running sum is finite and at least 1. In
  every later iteration the running maximum \<open>a\<close> and the new maximum \<open>b\<close> are finite with
  \<open>a \<le> b\<close>, and the rescaling factor is a finite number in \<open>[0, 1]\<close>.
\<close>

theorem sentinel_start_harmless:
  assumes num: "list_all is_num xs" and B: "1 \<le> B"
    and first: "\<exists>r. Fin r \<in> set (take B xs)"
    and offs: "py_range 0 (length xs) B = Inr offsets"
  shows "fmul (Fin 0) (tl_exp (fsub NegInf (tl_maximum NegInf (tl_max (in_block undef xs B 0))))) = Fin 0
    \<and> v1_accumulate undef xs B (take 1 offsets) =
        (tl_max (in_block undef xs B 0),
         tl_sum (map (\<lambda>x. tl_exp (fsub x (tl_max (in_block undef xs B 0)))) (in_block undef xs B 0)))
    \<and> (\<forall>k. 1 \<le> k \<and> k \<le> length offsets \<longrightarrow>
          (\<exists>m s. v1_accumulate undef xs B (take k offsets) = (Fin m, Fin s)
               \<and> Fin m \<in> set (take (k * B) xs)
               \<and> (\<forall>r. Fin r \<in> set (take (k * B) xs) \<longrightarrow> r \<le> m)
               \<and> 1 \<le> s))
    \<and> (\<forall>k. 1 \<le> k \<and> k < length offsets \<longrightarrow>
          (\<exists>a b f. fst (v1_accumulate undef xs B (take k offsets)) = Fin a
               \<and> fst (v1_accumulate undef xs B (take (Suc k) offsets)) = Fin b
               \<and> a \<le> b
               \<and> tl_exp (fsub (Fin a) (Fin b)) = Fin f
               \<and> 0 \<le> f \<and> f \<le> 1))"
proof -
  let ?n = "n_chunks (length xs) B"
  from B have pos: "0 < B" by simp
  from offs pos have o: "offsets = map (\<lambda>k. k * B) [0..<?n]"
    by (simp add: py_range_pos)
  from first have f: "reals_of (take B xs) \<noteq> []"
    by (simp add: reals_of_nonempty_iff)
  then have "xs \<noteq> []" by auto
  then have n1: "1 \<le> ?n"
    using chunks_cover [OF pos, of "length xs"] by (cases ?n) simp_all
  have pre: "v1_accumulate undef xs B (take k offsets) = acc_state (reals_of (take (k * B) xs))"
    if "k \<le> ?n" for k
    unfolding o using num pos f that by (rule v1_accumulate_prefix)
  have pre_ne: "reals_of (take (k * B) xs) \<noteq> []" if "1 \<le> k" for k
    using that f by (intro first_chunk_prefix) simp_all
  let ?d0 = "in_block undef xs B 0"
  have d0_num: "list_all is_num ?d0"
    unfolding in_block_eq using num by (intro block_num) simp_all
  have d0_reals: "reals_of ?d0 = reals_of (take B xs)"
    unfolding in_block_eq using block_reals [of 0 xs B] by simp
  have d0_max: "tl_max ?d0 = Fin (Max (set (reals_of (take B xs))))"
    using d0_num d0_reals f by (simp add: tl_max_num mx_def)
  have 1: "fmul (Fin 0) (tl_exp (fsub NegInf (tl_maximum NegInf (tl_max ?d0)))) = Fin 0"
    unfolding d0_max by simp
  have 2: "v1_accumulate undef xs B (take 1 offsets) =
        (tl_max ?d0, tl_sum (map (\<lambda>x. tl_exp (fsub x (tl_max ?d0))) ?d0))"
    using pre [of 1] n1 plain_state [OF d0_num] f by (simp add: d0_reals)
  have 3: "\<exists>m s. v1_accumulate undef xs B (take k offsets) = (Fin m, Fin s)
               \<and> Fin m \<in> set (take (k * B) xs)
               \<and> (\<forall>r. Fin r \<in> set (take (k * B) xs) \<longrightarrow> r \<le> m)
               \<and> 1 \<le> s"
    if "1 \<le> k" "k \<le> length offsets" for k
  proof -
    from that have "k \<le> ?n" by (simp add: o)
    then show ?thesis
      using acc_state_shape [OF pre_ne [OF that(1)]] by (simp add: pre)
  qed
  have 4: "\<exists>a b f. fst (v1_accumulate undef xs B (take k offsets)) = Fin a
               \<and> fst (v1_accumulate undef xs B (take (Suc k) offsets)) = Fin b
               \<and> a \<le> b
               \<and> tl_exp (fsub (Fin a) (Fin b)) = Fin f
               \<and> 0 \<le> f \<and> f \<le> 1"
    if "1 \<le> k" "k < length offsets" for k
  proof -
    from that have k: "k \<le> ?n" "Suc k \<le> ?n" by (simp_all add: o)
    let ?a = "Max (set (reals_of (take (k * B) xs)))"
    let ?b = "Max (set (reals_of (take (Suc k * B) xs)))"
    have a: "fst (v1_accumulate undef xs B (take k offsets)) = Fin ?a"
      using pre [OF k(1)] pre_ne [OF that(1)] by (simp add: acc_state_fst)
    have b: "fst (v1_accumulate undef xs B (take (Suc k) offsets)) = Fin ?b"
      using pre [OF k(2)] pre_ne [of "Suc k"] by (simp add: acc_state_fst)
    have "set (reals_of (take (k * B) xs)) \<subseteq> set (reals_of (take (Suc k * B) xs))"
      by (simp only: take_chunk reals_of_append) simp
    then have le: "?a \<le> ?b"
      using pre_ne [OF that(1)] by (intro Max_mono) simp_all
    from a b le show ?thesis by auto
  qed
  from 1 2 3 4 show ?thesis by blast
qed

theorem sentinel_start_harmless_witness:
  "list_all is_num [NegInf, Fin 1, Fin 3, NegInf, Fin 2] \<and> (1::nat) \<le> 2
   \<and> (\<exists>r. Fin r \<in> set (take 2 [NegInf, Fin 1, Fin 3, NegInf, Fin 2]))
   \<and> py_range 0 (length [NegInf, Fin 1, Fin 3, NegInf, Fin 2]) 2 = Inr [0, 2, 4]
   \<and> v1_accumulate (\<lambda>a. NaN) [NegInf, Fin 1, Fin 3, NegInf, Fin 2] 2 (take 1 [0, 2, 4]) =
        (tl_max (in_block (\<lambda>a. NaN) [NegInf, Fin 1, Fin 3, NegInf, Fin 2] 2 0),
         tl_sum (map (\<lambda>x. tl_exp (fsub x (tl_max (in_block (\<lambda>a. NaN) [NegInf, Fin 1, Fin 3, NegInf, Fin 2] 2 0))))
                  (in_block (\<lambda>a. NaN) [NegInf, Fin 1, Fin 3, NegInf, Fin 2] 2 0)))"
proof -
  have 1: "list_all is_num [NegInf, Fin 1, Fin 3, NegInf, Fin 2]" by simp
  have 2: "(1::nat) \<le> 2" by simp
  have 3: "\<exists>r. Fin r \<in> set (take 2 [NegInf, Fin 1, Fin 3, NegInf, Fin 2])" by simp
  have 4: "py_range 0 (length [NegInf, Fin 1, Fin 3, NegInf, Fin 2]) 2 = Inr [0, 2, 4]"
    by (simp add: py_range_def upt_conv_Cons)
  from sentinel_start_harmless [OF 1 2 3 4, of "\<lambda>a. NaN"] 1 2 3 4 show ?thesis by blast
qed

text \<open>
  Without the restriction to finite numbers and minus infinities the claim fails: in the
  row \<open>[0, +\<infinity>, 0]\<close> with block size 1 the first block holds a finite entry, but from the
  second block on the running maximum is plus infinity, and the rescaling factor of the
  third block, \<open>exp(+\<infinity> - (+\<infinity>))\<close>, is not a number.
\<close>

theorem posinf_entry_breaks_rescale:
  "(\<exists>r. Fin r \<in> set (take 1 [Fin 0, PosInf, Fin 0]))
   \<and> py_range 0 (length [Fin 0, PosInf, Fin 0]) 1 = Inr [0, 1, 2]
   \<and> fst (v1_accumulate (\<lambda>a. NaN) [Fin 0, PosInf, Fin 0] 1 (take 2 [0, 1, 2])) = PosInf
   \<and> fst (v1_accumulate (\<lambda>a. NaN) [Fin 0, PosInf, Fin 0] 1 (take 3 [0, 1, 2])) = PosInf
   \<and> tl_exp (fsub PosInf PosInf) = NaN"
  by (simp add: py_range_def v1_accumulate_def v1_accumulate_body_def
      tl_load_def tl_arange_def tl_sum_def fsub_def Let_def upt_conv_Cons)

end
